theory Spec2Isabelle
  imports Complex_Main "HOL-Library.Code_Target_Numeral"
begin

section \<open>Sliding-window rate limiter: the model\<close>

text \<open>
  The embedding follows class \<open>RateLimiter\<close> of \<open>code_submission_safe.py\<close>.

  \<^item> \<open>max_requests\<close> and \<open>time_window\<close> are Python \<open>int\<close>s, as annotated: \<open>int\<close>.
  \<^item> Timestamps come from \<open>time.time()\<close> and are IEEE 754 binary64 numbers. A finite
    double is the real number it denotes; the difference of two doubles is that of the
    reals, rounded to the nearest double, ties to even (\<open>fl\<close>). The rounding has no
    upper bound on the exponent: a result of magnitude \<open>2 ^ 1024\<close> or more stands for the
    infinity of its sign (\<open>overflow\<close>), and every place that reads such a result treats
    it as Python treats the infinity.
  \<^item> The clock is not part of the limiter: every call of \<open>check_rate_limit\<close> receives
    the value that \<open>time.time()\<close> returned to it as the argument \<open>current_time\<close>.
  \<^item> \<open>requests\<close> is a \<open>defaultdict(deque)\<close>: a partial map from identifiers to
    lists whose head is the left end of the deque.
  \<^item> An identifier is a \<open>str\<close> or \<open>None\<close>: a \<open>string option\<close>.
  \<^item> Every operation returns the limiter it leaves behind, also when it raises.
  \<^item> Each operation is one transition: the body guarded by \<open>self.lock\<close> runs
    without interruption, so the lock has no field in the record. A call reads the
    clock before it takes the lock (line 53), so the transitions of a history need not
    come in the order of their clock values.
\<close>

datatype error = ValueError string | IndexError | OverflowError

record limiter =
  max_requests :: int
  time_window :: int
  requests :: "string \<rightharpoonup> real list"

type_synonym outcome = "error + bool \<times> int"

subsection \<open>Double-precision arithmetic\<close>

text \<open>Rounding of a real to the nearest integer, ties to the even one.\<close>

definition rne :: "real \<Rightarrow> int" where
  "rne y =
     (let f = \<lfloor>y\<rfloor>; r = y - of_int f
      in if r < 1 / 2 then f else if 1 / 2 < r then f + 1 else if even f then f else f + 1)"

text \<open>The number of binary digits of a natural number (Python's \<open>int.bit_length\<close>).\<close>

fun bit_length :: "nat \<Rightarrow> nat" where
  "bit_length n = (if n = 0 then 0 else Suc (bit_length (n div 2)))"

text \<open>The least positive double is \<open>2 ^ -1074\<close>; every double is a multiple of it.\<close>

definition denorm_bits :: nat where
  "denorm_bits = 1074"

text \<open>
  Rounding to binary64: the argument is counted in units of \<open>2 ^ -1074\<close>, and the
  digits below the leading 53 are rounded away. Magnitudes below \<open>2 ^ -1021\<close> have at
  most 53 digits in these units and are rounded to a whole number of units (the
  subnormal numbers and the first binade).
\<close>

definition fl :: "real \<Rightarrow> real" where
  "fl x =
     (let s = bit_length (nat \<lfloor>\<bar>x\<bar> * 2 ^ denorm_bits\<rfloor>) - 53
      in of_int (rne (x * 2 ^ denorm_bits / 2 ^ s)) * 2 ^ s / 2 ^ denorm_bits)"

text \<open>A rounded result beyond the largest double: the operation returns an infinity.\<close>

definition overflow :: "real \<Rightarrow> bool" where
  "overflow x \<longleftrightarrow> 2 ^ 1024 \<le> \<bar>x\<bar>"

text \<open>The subtraction of two doubles.\<close>

definition fsub :: "real \<Rightarrow> real \<Rightarrow> real" where
  "fsub a b = fl (a - b)"

text \<open>
  A bound far inside the range of the doubles, used where a statement needs the
  arithmetic to stay finite: \<open>2 ^ 1022\<close> seconds.
\<close>

definition clock_bound :: real where
  "clock_bound = 2 ^ 1022"

subsection \<open>The limiter\<close>

text \<open>\<open>RateLimiter.__init__\<close>.\<close>

definition init :: "int \<Rightarrow> int \<Rightarrow> error + limiter" where
  "init mr tw =
     (if mr \<le> 0 then Inl (ValueError ''max_requests must be greater than 0'')
      else if tw \<le> 0 then Inl (ValueError ''time_window must be greater than 0'')
      else Inr \<lparr>max_requests = mr, time_window = tw, requests = Map.empty\<rparr>)"

text \<open>Python's \<open>int(x)\<close> on a finite float truncates towards zero.\<close>

definition py_int :: "real \<Rightarrow> int" where
  "py_int x = (if x < 0 then \<lceil>x\<rceil> else \<lfloor>x\<rfloor>)"

text \<open>
  The value of \<open>self.requests[identifier]\<close>: a missing key reads as the empty deque
  (which the \<open>defaultdict\<close> also stores, see \<open>purge_expired\<close>).
\<close>

definition log_of :: "limiter \<Rightarrow> string \<Rightarrow> real list" where
  "log_of l i = (case requests l i of None \<Rightarrow> [] | Some q \<Rightarrow> q)"

text \<open>
  The test of line 59, \<^verbatim>\<open>current_time - q[0] >= self.time_window\<close>: a float
  subtraction, then the comparison of a float with an \<open>int\<close>, which Python decides on
  the exact values; plus infinity is above every \<open>int\<close>, minus infinity below.
\<close>

definition expired :: "int \<Rightarrow> real \<Rightarrow> real \<Rightarrow> bool" where
  "expired tw current_time t =
     (let d = fsub current_time t in if overflow d then 0 < d else of_int tw \<le> d)"

text \<open>
  The loop of lines 58 to 60 on one deque:
  \<^verbatim>\<open>while q and current_time - q[0] >= time_window: q.popleft()\<close>
\<close>

fun purge :: "int \<Rightarrow> real \<Rightarrow> real list \<Rightarrow> real list" where
  "purge tw current_time [] = []"
| "purge tw current_time (t # q) =
     (if expired tw current_time t then purge tw current_time q else t # q)"

text \<open>
  The limiter after that loop: the key is present from the first evaluation of
  \<open>self.requests[identifier]\<close> on, bound to the trimmed deque.
\<close>

definition purge_expired :: "limiter \<Rightarrow> string \<Rightarrow> real \<Rightarrow> limiter" where
  "purge_expired l i current_time =
     l\<lparr>requests := (requests l)(i \<mapsto> purge (time_window l) current_time (log_of l i))\<rparr>"

text \<open>
  Line 66, \<^verbatim>\<open>int(self.time_window - (current_time - oldest)) + 1\<close>, when every float
  in it is finite: two float subtractions, the \<open>int\<close> window converted to the nearest
  double for the outer one.
\<close>

definition retry_value :: "int \<Rightarrow> real \<Rightarrow> real \<Rightarrow> int" where
  "retry_value tw current_time oldest =
     py_int (fl (fl (of_int tw) - fsub current_time oldest)) + 1"

text \<open>
  Line 66 in full. The conversion of the window raises \<open>OverflowError\<close> when the
  nearest double is beyond the range; a difference that is infinite makes the
  argument of \<open>int\<close> infinite, and \<open>int\<close> raises \<open>OverflowError\<close> on an infinity.
\<close>

definition retry_after :: "int \<Rightarrow> real \<Rightarrow> real \<Rightarrow> error + int" where
  "retry_after tw current_time oldest =
     (if overflow (fl (of_int tw)) \<or> overflow (fsub current_time oldest) \<or>
         overflow (fl (fl (of_int tw) - fsub current_time oldest))
      then Inl OverflowError
      else Inr (retry_value tw current_time oldest))"

text \<open>
  Lines 65 to 67: the outcome of a call that finds the quota used up while \<open>oldest\<close> is
  the first entry of the deque.
\<close>

definition denial :: "int \<Rightarrow> real \<Rightarrow> real \<Rightarrow> outcome" where
  "denial tw oldest current_time =
     (case retry_after tw current_time oldest of
        Inl e \<Rightarrow> Inl e
      | Inr r \<Rightarrow> Inr (False, r))"

text \<open>
  \<open>RateLimiter.check_rate_limit\<close>. \<open>q[0]\<close> on an empty deque raises \<open>IndexError\<close>;
  this is reached only when \<open>max_requests \<le> 0\<close>, which \<open>init\<close> excludes.
\<close>

definition check_rate_limit :: "limiter \<Rightarrow> string option \<Rightarrow> real \<Rightarrow> outcome \<times> limiter" where
  "check_rate_limit l identifier current_time =
     (case identifier of
        None \<Rightarrow> (Inl (ValueError ''identifier cannot be None or empty''), l)
      | Some i \<Rightarrow>
          if i = [] then (Inl (ValueError ''identifier cannot be None or empty''), l)
          else
            let l1 = purge_expired l i current_time;
                q = log_of l1 i
            in if int (length q) \<ge> max_requests l1 then
                 (case q of
                    [] \<Rightarrow> (Inl IndexError, l1)
                  | oldest # _ \<Rightarrow> (denial (time_window l1) oldest current_time, l1))
               else (Inr (True, 0), l1\<lparr>requests := (requests l1)(i \<mapsto> q @ [current_time])\<rparr>))"

text \<open>\<open>RateLimiter.reset\<close>. \<open>None\<close> is never a key of the map.\<close>

definition reset :: "limiter \<Rightarrow> string option \<Rightarrow> limiter" where
  "reset l identifier =
     (case identifier of
        None \<Rightarrow> l
      | Some i \<Rightarrow>
          (case requests l i of
             None \<Rightarrow> l
           | Some _ \<Rightarrow> l\<lparr>requests := (requests l)(i := None)\<rparr>))"

subsection \<open>Sequences of calls\<close>

text \<open>
  A caller's history after construction: calls of \<open>check_rate_limit\<close>, each with the
  clock value it read, and calls of \<open>reset\<close>, in the order in which they take the lock.
  An exception raised by a call is caught by the caller; the limiter stays as the call
  left it.
\<close>

datatype call = Check "string option" real | Reset "string option"

fun step :: "limiter \<Rightarrow> call \<Rightarrow> limiter" where
  "step l (Check identifier current_time) = snd (check_rate_limit l identifier current_time)"
| "step l (Reset identifier) = reset l identifier"

fun run :: "limiter \<Rightarrow> call list \<Rightarrow> limiter" where
  "run l [] = l"
| "run l (c # cs) = run (step l c) cs"

text \<open>The clock values read by the calls of a history, in order.\<close>

fun clock_reads :: "call list \<Rightarrow> real list" where
  "clock_reads [] = []"
| "clock_reads (Check _ current_time # cs) = current_time # clock_reads cs"
| "clock_reads (Reset _ # cs) = clock_reads cs"

text \<open>
  Calls of \<open>check_rate_limit\<close> for one identifier, in the order in which they take the
  lock, at the clock values they read: the outcomes in order, and the limiter at the
  end.
\<close>

fun check_many :: "limiter \<Rightarrow> string \<Rightarrow> real list \<Rightarrow> outcome list \<times> limiter" where
  "check_many l i [] = ([], l)"
| "check_many l i (t # ts) =
     (case check_rate_limit l (Some i) t of
        (r, l') \<Rightarrow> (case check_many l' i ts of (rs, l'') \<Rightarrow> (r # rs, l'')))"

subsection \<open>Example states\<close>

text \<open>
  The limiter of the specification's example (quota 3, window 10 s) as \<open>init\<close> returns
  it, and after the calls for \<open>u1\<close> at the clock values 0, 1 and 2; limiters with the
  quotas 1 and 2 and the same window as \<open>init\<close> returns them.
\<close>

definition u1_fresh :: limiter where
  "u1_fresh = \<lparr>max_requests = 3, time_window = 10, requests = Map.empty\<rparr>"

definition u1_full :: limiter where
  "u1_full = \<lparr>max_requests = 3, time_window = 10, requests = [''u1'' \<mapsto> [0, 1, 2]]\<rparr>"

text \<open>A clock value just after zero: the double \<open>2 ^ -60\<close>.\<close>

definition tiny :: real where
  "tiny = 1 / 2 ^ 60"

definition quota1 :: limiter where
  "quota1 = \<lparr>max_requests = 1, time_window = 10, requests = Map.empty\<rparr>"

definition quota2 :: limiter where
  "quota2 = \<lparr>max_requests = 2, time_window = 10, requests = Map.empty\<rparr>"

section \<open>Facts about the rounding\<close>

subsection \<open>Binary digits\<close>

declare bit_length.simps [simp del]

lemma bit_length_le_iff: "bit_length n \<le> w \<longleftrightarrow> n < 2 ^ w"
proof (induction n arbitrary: w rule: bit_length.induct)
  case (1 n)
  show ?case
  proof (cases "n = 0")
    case True
    then show ?thesis by (simp add: bit_length.simps)
  next
    case False
    show ?thesis
    proof (cases w)
      case 0
      with False show ?thesis by (simp add: bit_length.simps)
    next
      case (Suc v)
      have "bit_length n \<le> w \<longleftrightarrow> bit_length (n div 2) \<le> v"
        using False Suc by (subst bit_length.simps) simp
      also have "\<dots> \<longleftrightarrow> n div 2 < 2 ^ v"
        using 1 [OF False] by simp
      also have "\<dots> \<longleftrightarrow> n < 2 ^ w"
        using Suc by auto
      finally show ?thesis .
    qed
  qed
qed

lemma bit_length_less: "n < 2 ^ bit_length n"
  using bit_length_le_iff [of n "bit_length n"] by simp

lemma bit_length_ge: "0 < n \<Longrightarrow> 2 ^ (bit_length n - 1) \<le> n"
proof -
  assume "0 < n"
  then have pos: "0 < bit_length n" by (subst bit_length.simps) simp
  have "\<not> bit_length n \<le> bit_length n - 1" using pos by simp
  then show ?thesis by (simp add: bit_length_le_iff)
qed

lemma bit_length_mono: "m \<le> n \<Longrightarrow> bit_length m \<le> bit_length n"
  using bit_length_le_iff [of m "bit_length n"] bit_length_less [of n] by simp

lemma bit_length_eqI: "2 ^ k \<le> n \<Longrightarrow> n < 2 ^ Suc k \<Longrightarrow> bit_length n = Suc k"
proof -
  assume a: "2 ^ k \<le> n" "n < 2 ^ Suc k"
  have "bit_length n \<le> Suc k" using a(2) by (simp only: bit_length_le_iff)
  moreover have "\<not> bit_length n \<le> k" using a(1) by (simp add: bit_length_le_iff)
  ultimately show ?thesis by simp
qed

subsection \<open>Rounding to an integer\<close>

lemma rne_bounds: "\<lfloor>y\<rfloor> \<le> rne y" "rne y \<le> \<lfloor>y\<rfloor> + 1"
  by (simp_all add: rne_def Let_def)

lemma rne_of_int [simp]: "rne (of_int n) = n"
  by (simp add: rne_def)

lemma rne_mono: "x \<le> y \<Longrightarrow> rne x \<le> rne y"
proof -
  assume xy: "x \<le> y"
  then have f: "\<lfloor>x\<rfloor> \<le> \<lfloor>y\<rfloor>" by (rule floor_mono)
  show ?thesis
  proof (cases "\<lfloor>x\<rfloor> = \<lfloor>y\<rfloor>")
    case True
    then show ?thesis using xy by (auto simp: rne_def Let_def)
  next
    case False
    with f have "\<lfloor>x\<rfloor> + 1 \<le> \<lfloor>y\<rfloor>" by simp
    with rne_bounds(2) [of x] rne_bounds(1) [of y] show ?thesis by linarith
  qed
qed

lemma rne_minus: "rne (- y) = - rne y"
proof (cases "y \<in> \<int>")
  case True
  then obtain n where "y = of_int n" by (auto elim: Ints_cases)
  then have "- y = of_int (- n)" by simp
  then show ?thesis using \<open>y = of_int n\<close> by (simp only: rne_of_int)
next
  case False
  then have ne: "y \<noteq> of_int \<lfloor>y\<rfloor>" by (metis Ints_of_int)
  then have fl: "\<lfloor>- y\<rfloor> = - \<lfloor>y\<rfloor> - 1"
    by (simp add: ceiling_altdef floor_minus)
  show ?thesis
    using ne unfolding rne_def Let_def fl by (auto simp: field_simps)
qed

lemma rne_nonneg: "0 \<le> y \<Longrightarrow> 0 \<le> rne y"
  using rne_mono [of 0 y] rne_of_int [of 0] by simp

lemma rne_le_of_int: "y \<le> of_int n \<Longrightarrow> rne y \<le> n"
  using rne_mono [of y "of_int n"] by simp

lemma rne_ge_of_int: "of_int n \<le> y \<Longrightarrow> n \<le> rne y"
  using rne_mono [of "of_int n" y] by simp

subsection \<open>Sign and monotonicity\<close>

lemma rne_zero [simp]: "rne 0 = 0"
  using rne_of_int [of 0] by simp

lemma fl_zero [simp]: "fl 0 = 0"
  by (simp add: fl_def)

lemma fl_minus: "fl (- x) = - fl x"
  by (simp add: fl_def Let_def rne_minus)

lemma fl_nonneg: "0 \<le> x \<Longrightarrow> 0 \<le> fl x"
  by (simp add: fl_def Let_def rne_nonneg)

lemma fl_nonpos: "x \<le> 0 \<Longrightarrow> fl x \<le> 0"
  using fl_nonneg [of "- x"] by (simp add: fl_minus)

text \<open>The scaled magnitude is below \<open>2 ^ (shift + 53)\<close>.\<close>

lemma scaled_less:
  fixes x :: real
  assumes "0 \<le> x" "s = bit_length (nat \<lfloor>x\<rfloor>) - 53"
  shows "x < 2 ^ (s + 53)"
proof -
  have "nat \<lfloor>x\<rfloor> < 2 ^ bit_length (nat \<lfloor>x\<rfloor>)" by (rule bit_length_less)
  also have "\<dots> \<le> 2 ^ (s + 53)" using assms(2) by (intro power_increasing) auto
  finally have a: "nat \<lfloor>x\<rfloor> < (2 :: nat) ^ (s + 53)" .
  have "0 \<le> \<lfloor>x\<rfloor>" using assms(1) by simp
  with a have "\<lfloor>x\<rfloor> < int (2 ^ (s + 53))" by linarith
  then have "x < real_of_int (int (2 ^ (s + 53)))" by (simp only: floor_less_iff)
  then show ?thesis by simp
qed

lemma scaled_ge:
  fixes x :: real
  assumes "0 \<le> x" "s = bit_length (nat \<lfloor>x\<rfloor>) - 53" "0 < s"
  shows "2 ^ (s + 52) \<le> x"
proof -
  have n: "bit_length (nat \<lfloor>x\<rfloor>) = s + 53" using assms(2,3) by simp
  then have "0 < nat \<lfloor>x\<rfloor>" by (metis add_is_0 bit_length.simps neq0_conv zero_neq_numeral)
  moreover have "bit_length (nat \<lfloor>x\<rfloor>) - 1 = s + 52" using n by simp
  ultimately have a: "(2 :: nat) ^ (s + 52) \<le> nat \<lfloor>x\<rfloor>"
    using bit_length_ge [of "nat \<lfloor>x\<rfloor>"] by (simp del: One_nat_def)
  have "0 \<le> \<lfloor>x\<rfloor>" using assms(1) by simp
  with a have "int (2 ^ (s + 52)) \<le> \<lfloor>x\<rfloor>" by linarith
  then have "real_of_int (int (2 ^ (s + 52))) \<le> x" by (simp only: le_floor_iff)
  then show ?thesis by simp
qed

lemma fl_mono_nonneg:
  assumes "0 \<le> x" "x \<le> y"
  shows "fl x \<le> fl y"
proof -
  define X where "X = \<bar>x\<bar> * 2 ^ denorm_bits"
  define Y where "Y = \<bar>y\<bar> * 2 ^ denorm_bits"
  define sx where "sx = bit_length (nat \<lfloor>X\<rfloor>) - 53"
  define sy where "sy = bit_length (nat \<lfloor>Y\<rfloor>) - 53"
  have X: "X = x * 2 ^ denorm_bits" "0 \<le> X" and Y: "Y = y * 2 ^ denorm_bits" "0 \<le> Y"
    using assms by (simp_all add: X_def Y_def)
  have XY: "X \<le> Y" using assms by (simp add: X Y)
  have fx: "fl x = of_int (rne (X / 2 ^ sx)) * 2 ^ sx / 2 ^ denorm_bits"
    and fy: "fl y = of_int (rne (Y / 2 ^ sy)) * 2 ^ sy / 2 ^ denorm_bits"
    using X(1) Y(1) by (simp_all add: fl_def Let_def sx_def sy_def X_def Y_def)
  have "nat \<lfloor>X\<rfloor> \<le> nat \<lfloor>Y\<rfloor>" using XY by (simp add: floor_mono nat_mono)
  then have s: "sx \<le> sy" unfolding sx_def sy_def by (intro diff_le_mono bit_length_mono)
  have "real_of_int (rne (X / 2 ^ sx)) * 2 ^ sx \<le> real_of_int (rne (Y / 2 ^ sy)) * 2 ^ sy"
  proof (cases "sx = sy")
    case True
    have "X / 2 ^ sy \<le> Y / 2 ^ sy" using XY by (simp add: divide_right_mono)
    then have "rne (X / 2 ^ sy) \<le> rne (Y / 2 ^ sy)" by (rule rne_mono)
    then show ?thesis using True by simp
  next
    case False
    with s have lt: "sx < sy" by simp
    have "X < 2 ^ (sx + 53)" using X(2) sx_def by (rule scaled_less)
    then have "X / 2 ^ sx \<le> of_int (2 ^ 53)" by (simp add: power_add field_simps)
    then have "rne (X / 2 ^ sx) \<le> 2 ^ 53" by (rule rne_le_of_int)
    then have "real_of_int (rne (X / 2 ^ sx)) \<le> 2 ^ 53"
      by (metis of_int_le_iff of_int_numeral of_int_power)
    then have "real_of_int (rne (X / 2 ^ sx)) * 2 ^ sx \<le> 2 ^ 53 * 2 ^ sx"
      by (simp add: mult_right_mono)
    also have "\<dots> = (2 :: real) ^ (sx + 53)" by (simp add: power_add)
    also have "\<dots> \<le> 2 ^ (sy + 52)" using lt by (intro power_increasing) auto
    also have "\<dots> = 2 ^ 52 * 2 ^ sy" by (simp add: power_add)
    also have "\<dots> \<le> real_of_int (rne (Y / 2 ^ sy)) * 2 ^ sy"
    proof -
      have "2 ^ (sy + 52) \<le> Y" using Y(2) sy_def lt by (intro scaled_ge) auto
      then have "of_int (2 ^ 52) \<le> Y / 2 ^ sy" by (simp add: power_add field_simps)
      then have "2 ^ 52 \<le> rne (Y / 2 ^ sy)" by (rule rne_ge_of_int)
      then have "2 ^ 52 \<le> real_of_int (rne (Y / 2 ^ sy))"
        by (metis of_int_le_iff of_int_numeral of_int_power)
      then show ?thesis by (simp add: mult_right_mono)
    qed
    finally show ?thesis .
  qed
  then show ?thesis by (simp add: fx fy divide_right_mono)
qed

lemma fl_mono: "x \<le> y \<Longrightarrow> fl x \<le> fl y"
proof -
  assume xy: "x \<le> y"
  consider "0 \<le> x" | "x < 0" "0 \<le> y" | "y < 0" by linarith
  then show ?thesis
  proof cases
    case 1
    then show ?thesis using xy by (rule fl_mono_nonneg)
  next
    case 2
    then have "fl x \<le> 0" "0 \<le> fl y" by (simp_all add: fl_nonpos fl_nonneg)
    then show ?thesis by simp
  next
    case 3
    then have "fl (- y) \<le> fl (- x)" using xy by (intro fl_mono_nonneg) auto
    then show ?thesis by (simp add: fl_minus)
  qed
qed

subsection \<open>Doubles are fixed points\<close>

lemma bit_length_floor:
  fixes y :: real
  assumes "2 ^ k \<le> y" "y < 2 ^ Suc k"
  shows "bit_length (nat \<lfloor>y\<rfloor>) = Suc k"
proof (rule bit_length_eqI)
  have "real_of_int (int (2 ^ k)) \<le> y" using assms(1) by simp
  then have "int (2 ^ k) \<le> \<lfloor>y\<rfloor>" by (simp only: le_floor_iff)
  then show "2 ^ k \<le> nat \<lfloor>y\<rfloor>" by linarith
  have "y < real_of_int (int (2 ^ Suc k))" using assms(2) by simp
  then have "\<lfloor>y\<rfloor> < int (2 ^ Suc k)" by (simp only: floor_less_iff)
  moreover have "(0 :: nat) < 2 ^ Suc k" by simp
  ultimately show "nat \<lfloor>y\<rfloor> < 2 ^ Suc k" by linarith
qed

lemma fl_scaled:
  assumes "t \<le> denorm_bits" "2 ^ 52 \<le> \<bar>x\<bar> * 2 ^ t" "\<bar>x\<bar> * 2 ^ t < 2 ^ 53"
  shows "fl x = of_int (rne (x * 2 ^ t)) / 2 ^ t"
proof -
  define s where "s = denorm_bits - t"
  have P: "(2 :: real) ^ denorm_bits = 2 ^ t * 2 ^ s"
    using assms(1) by (simp add: s_def flip: power_add)
  have X: "\<bar>x\<bar> * 2 ^ denorm_bits = \<bar>x\<bar> * 2 ^ t * 2 ^ s"
    by (simp only: P mult.assoc)
  have "(2 :: real) ^ 52 * 2 ^ s \<le> \<bar>x\<bar> * 2 ^ t * 2 ^ s"
    using assms(2) by (intro mult_right_mono) auto
  then have lo: "2 ^ (52 + s) \<le> \<bar>x\<bar> * 2 ^ denorm_bits"
    by (simp only: X power_add)
  have "\<bar>x\<bar> * 2 ^ t * 2 ^ s < 2 ^ 53 * 2 ^ s"
    using assms(3) by (intro mult_strict_right_mono) auto
  moreover have "(2 :: real) ^ Suc (52 + s) = 2 ^ 53 * 2 ^ s"
    by (simp only: power_add [symmetric]) simp
  ultimately have hi: "\<bar>x\<bar> * 2 ^ denorm_bits < 2 ^ Suc (52 + s)"
    by (simp only: X)
  have "bit_length (nat \<lfloor>\<bar>x\<bar> * 2 ^ denorm_bits\<rfloor>) = Suc (52 + s)"
    using lo hi by (rule bit_length_floor)
  then have shift: "bit_length (nat \<lfloor>\<bar>x\<bar> * 2 ^ denorm_bits\<rfloor>) - 53 = s" by simp
  have "x * 2 ^ denorm_bits / 2 ^ s = x * 2 ^ t" by (simp only: P) simp
  moreover have "real_of_int m * 2 ^ s / 2 ^ denorm_bits = real_of_int m / 2 ^ t" for m
    by (simp only: P) simp
  ultimately show ?thesis by (simp only: fl_def Let_def shift)
qed

lemma fl_repr: "\<exists>M s. fl x = of_int M * 2 ^ s / 2 ^ denorm_bits \<and> \<bar>M\<bar> \<le> 2 ^ 53"
proof -
  define X where "X = \<bar>x\<bar> * 2 ^ denorm_bits"
  define s where "s = bit_length (nat \<lfloor>X\<rfloor>) - 53"
  define y where "y = x * 2 ^ denorm_bits / 2 ^ s"
  define M where "M = rne y"
  have "0 \<le> X" by (simp add: X_def)
  then have "X < 2 ^ (s + 53)" using s_def by (rule scaled_less)
  then have "X / 2 ^ s < 2 ^ 53" by (simp add: power_add field_simps)
  moreover have "\<bar>y\<bar> = X / 2 ^ s" by (simp add: y_def X_def abs_mult)
  ultimately have "\<bar>y\<bar> < 2 ^ 53" by simp
  then have "y \<le> 2 ^ 53" "- (2 ^ 53) \<le> y" by linarith+
  then have b: "y \<le> of_int (2 ^ 53)" "of_int (- (2 ^ 53)) \<le> y" by simp_all
  have "M \<le> 2 ^ 53" unfolding M_def using b(1) by (rule rne_le_of_int)
  moreover have "- (2 ^ 53) \<le> M" unfolding M_def using b(2) by (rule rne_ge_of_int)
  ultimately have "\<bar>M\<bar> \<le> 2 ^ 53" by simp
  moreover have "fl x = of_int M * 2 ^ s / 2 ^ denorm_bits"
    by (simp add: fl_def Let_def M_def y_def s_def X_def)
  ultimately show ?thesis by blast
qed

lemma fl_fixed_pos:
  assumes "0 < M" "M \<le> 2 ^ 53"
  shows "fl (of_int M * 2 ^ t / 2 ^ denorm_bits) = of_int M * 2 ^ t / 2 ^ denorm_bits"
proof -
  define x :: real where "x = of_int M * 2 ^ t / 2 ^ denorm_bits"
  define n where "n = bit_length (nat \<lfloor>\<bar>x\<bar> * 2 ^ denorm_bits\<rfloor>)"
  define s where "s = n - 53"
  have X: "\<bar>x\<bar> * 2 ^ denorm_bits = of_int (M * 2 ^ t)" "x * 2 ^ denorm_bits = of_int (M * 2 ^ t)"
    using assms(1) by (simp_all add: x_def)
  have fx: "fl x = of_int (rne (of_int (M * 2 ^ t) / 2 ^ s)) * 2 ^ s / 2 ^ denorm_bits"
    by (simp only: fl_def Let_def X s_def n_def)
  have nat_eq: "nat \<lfloor>\<bar>x\<bar> * 2 ^ denorm_bits\<rfloor> = nat M * 2 ^ t"
    using assms(1) by (simp only: X floor_of_int) (simp add: nat_mult_distrib nat_power_eq)
  have "nat M \<le> nat (2 ^ 53)" using assms(2) by (rule nat_mono)
  then have "nat M \<le> 2 ^ 53" by simp
  then have "nat M * 2 ^ t \<le> 2 ^ 53 * 2 ^ t" by simp
  also have "\<dots> < (2 :: nat) ^ (54 + t)" by (simp add: power_add)
  finally have "n \<le> 54 + t" by (simp add: n_def nat_eq bit_length_le_iff)
  then have s_le: "s \<le> t + 1" by (simp add: s_def)
  have int_quot: "\<exists>q. real_of_int (M * 2 ^ t) / 2 ^ s = of_int q"
  proof (cases "s \<le> t")
    case True
    then have "(2 :: real) ^ t = 2 ^ (t - s) * 2 ^ s" by (simp flip: power_add)
    then have "real_of_int (M * 2 ^ t) / 2 ^ s = of_int (M * 2 ^ (t - s))" by simp
    then show ?thesis by blast
  next
    case False
    with s_le have s: "s = t + 1" by simp
    then have "n = t + 54" using s_def by simp
    then have "\<not> bit_length (nat M * 2 ^ t) \<le> t + 53"
      by (simp add: n_def nat_eq)
    then have "\<not> nat M * 2 ^ t < 2 ^ (t + 53)"
      unfolding bit_length_le_iff .
    then have "(2 :: nat) ^ (t + 53) \<le> nat M * 2 ^ t" by (simp only: not_less)
    moreover have "(2 :: nat) ^ (t + 53) = 2 ^ 53 * 2 ^ t" by (simp only: power_add mult.commute)
    ultimately have "2 ^ 53 * (2 :: nat) ^ t \<le> nat M * 2 ^ t" by (simp only:)
    then have "2 ^ 53 \<le> nat M" by simp
    then have "int (2 ^ 53) \<le> int (nat M)" by (simp only: of_nat_le_iff)
    then have "2 ^ 53 \<le> M" using assms(1) by simp
    then have "M = 2 ^ 53" using assms(2) by simp
    then have "real_of_int (M * 2 ^ t) / 2 ^ s = of_int (2 ^ 52)" by (simp add: s)
    then show ?thesis by blast
  qed
  then obtain q where q: "real_of_int (M * 2 ^ t) / 2 ^ s = of_int q" by blast
  then have "of_int (rne (of_int (M * 2 ^ t) / 2 ^ s)) * (2 :: real) ^ s = of_int (M * 2 ^ t)"
    by (simp add: field_simps)
  then have "fl x = of_int (M * 2 ^ t) / 2 ^ denorm_bits" by (simp only: fx)
  then show ?thesis by (simp add: x_def)
qed

lemma fl_fixed:
  assumes "\<bar>M\<bar> \<le> 2 ^ 53"
  shows "fl (of_int M * 2 ^ t / 2 ^ denorm_bits) = of_int M * 2 ^ t / 2 ^ denorm_bits"
proof -
  consider "M = 0" | "0 < M" | "M < 0" by linarith
  then show ?thesis
  proof cases
    case 1
    then show ?thesis by simp
  next
    case 2
    then show ?thesis using assms by (intro fl_fixed_pos) auto
  next
    case 3
    then have "fl (of_int (- M) * 2 ^ t / 2 ^ denorm_bits) = of_int (- M) * 2 ^ t / 2 ^ denorm_bits"
      using assms by (intro fl_fixed_pos) auto
    then have "fl (- (of_int M * 2 ^ t / 2 ^ denorm_bits)) = - (of_int M * 2 ^ t / 2 ^ denorm_bits)" by simp
    then show ?thesis by (simp only: fl_minus neg_equal_iff_equal)
  qed
qed

lemma fl_idem [simp]: "fl (fl x) = fl x"
  using fl_repr [of x] fl_fixed by force

lemma fl_of_int: "\<bar>n\<bar> \<le> 2 ^ 53 \<Longrightarrow> fl (of_int n) = of_int n"
  using fl_fixed [of n denorm_bits] by simp

lemma fl_inverse_power: "k \<le> denorm_bits \<Longrightarrow> fl (1 / 2 ^ k) = 1 / 2 ^ k"
proof -
  assume k: "k \<le> denorm_bits"
  then have "(2 :: real) ^ denorm_bits = 2 ^ (denorm_bits - k) * 2 ^ k" by (simp flip: power_add)
  then have "of_int 1 * 2 ^ (denorm_bits - k) / 2 ^ denorm_bits = 1 / (2 :: real) ^ k" by simp
  with fl_fixed [of 1 "denorm_bits - k"] show ?thesis by simp
qed

lemma fl_numeral [simp]: "numeral k \<le> (2 :: int) ^ 53 \<Longrightarrow> fl (numeral k) = numeral k"
  using fl_of_int [of "numeral k"] by simp

lemma fl_neg_numeral [simp]:
  "numeral k \<le> (2 :: int) ^ 53 \<Longrightarrow> fl (- numeral k) = - numeral k"
  by (simp add: fl_minus)

lemma fl_one [simp]: "fl 1 = 1"
  using fl_of_int [of 1] by simp

text \<open>Roundings used in the examples: \<open>tiny\<close> is a double, and the double nearest to \<open>10 - tiny\<close> is 10.\<close>

lemma fl_10_minus_tiny: "fl (10 - tiny) = 10"
proof -
  have "fl (10 - 1 / 2 ^ 60) = of_int (rne ((10 - 1 / 2 ^ 60) * 2 ^ 49)) / 2 ^ 49"
    by (rule fl_scaled) (simp_all add: denorm_bits_def)
  also have "rne ((10 - 1 / 2 ^ 60) * 2 ^ 49) = 10 * 2 ^ 49"
    by (simp add: rne_def Let_def)
  finally show ?thesis by (simp add: tiny_def)
qed

lemma fl_tiny: "fl tiny = tiny"
  unfolding tiny_def by (rule fl_inverse_power) (simp add: denorm_bits_def)

lemma tiny_bounds: "0 < tiny" "tiny < 1"
  by (simp_all add: tiny_def)


section \<open>Facts about finite results\<close>

lemma fl_power2: "fl (2 ^ k) = 2 ^ k"
proof -
  have "of_int 1 * 2 ^ (k + denorm_bits) / 2 ^ denorm_bits = (2 :: real) ^ k"
    by (simp add: power_add)
  with fl_fixed [of 1 "k + denorm_bits"] show ?thesis by simp
qed

lemma fl_abs_le_power2:
  assumes "\<bar>x\<bar> \<le> 2 ^ k"
  shows "\<bar>fl x\<bar> \<le> 2 ^ k"
proof -
  have "fl x \<le> fl (2 ^ k)" using assms by (intro fl_mono) linarith
  moreover have "fl (- (2 ^ k)) \<le> fl x" using assms by (intro fl_mono) linarith
  ultimately show ?thesis by (simp add: fl_power2 fl_minus abs_le_iff)
qed

lemma not_overflow_power2: "\<bar>x\<bar> \<le> 2 ^ 1023 \<Longrightarrow> \<not> overflow x"
proof -
  assume "\<bar>x\<bar> \<le> 2 ^ 1023"
  moreover have "(2 :: real) ^ 1023 < 2 ^ 1024" by (rule power_strict_increasing) simp_all
  ultimately show ?thesis unfolding overflow_def by linarith
qed

lemma clock_bound_double: "clock_bound + clock_bound = 2 ^ 1023"
proof -
  have "(2 :: real) ^ 1023 = 2 ^ Suc 1022" by simp
  then show ?thesis unfolding clock_bound_def by (simp only: power_Suc)
qed

lemma clock_bound_le: "clock_bound \<le> 2 ^ 1023"
  unfolding clock_bound_def by (rule power_increasing) simp_all

lemma fl_abs_le_clock_bound: "\<bar>x\<bar> \<le> clock_bound \<Longrightarrow> \<bar>fl x\<bar> \<le> clock_bound"
  unfolding clock_bound_def by (rule fl_abs_le_power2)

lemma fl_clock_bound: "fl clock_bound = clock_bound"
  unfolding clock_bound_def by (rule fl_power2)

lemma clock_bound_nonneg: "0 \<le> clock_bound"
  unfolding clock_bound_def by (rule zero_le_power) simp

lemma py_int_nonneg: "0 \<le> x \<Longrightarrow> 0 \<le> py_int x"
  by (simp add: py_int_def)

text \<open>
  Inside the bound the test of line 59 is the comparison of the rounded difference with
  the window.
\<close>

lemma expired_iff:
  assumes "0 < tw" "of_int tw \<le> clock_bound"
  shows "expired tw now t \<longleftrightarrow> of_int tw \<le> fsub now t"
proof (cases "overflow (fsub now t)")
  case False
  then show ?thesis by (simp add: expired_def Let_def)
next
  case True
  then have big: "2 ^ 1024 \<le> \<bar>fsub now t\<bar>" by (simp add: overflow_def)
  have "(2 :: real) ^ 1023 \<le> 2 ^ 1024" by (rule power_increasing) simp_all
  with clock_bound_le have cb: "clock_bound \<le> 2 ^ 1024" by linarith
  show ?thesis
  proof (cases "0 < fsub now t")
    case pos: True
    then have "of_int tw \<le> fsub now t" using big cb assms(2) by linarith
    then show ?thesis using True pos by (simp add: expired_def Let_def)
  next
    case neg: False
    then have "\<not> of_int tw \<le> fsub now t" using assms(1) by (simp add: not_le)
    then show ?thesis using True neg by (simp add: expired_def Let_def)
  qed
qed

text \<open>Line 66 inside the bound: no \<open>OverflowError\<close>, and a strictly positive value.\<close>

lemma retry_after_finite:
  assumes "of_int tw \<le> clock_bound" "- clock_bound \<le> now - oldest"
    "\<not> expired tw now oldest"
  shows "retry_after tw now oldest = Inr (retry_value tw now oldest)"
    and "0 < retry_value tw now oldest"
proof -
  define d where "d = fsub now oldest"
  define w where "w = fl (of_int tw)"
  have "fl (- clock_bound) \<le> d"
    unfolding d_def fsub_def using assms(2) by (rule fl_mono)
  then have d_lo: "- clock_bound \<le> d"
    by (simp only: fl_minus fl_clock_bound)
  note cb = clock_bound_nonneg clock_bound_le
  have d_fin: "\<not> overflow d"
  proof
    assume o: "overflow d"
    then have "\<not> 0 < d" using assms(3) by (simp add: expired_def Let_def d_def)
    moreover have "(2 :: real) ^ 1023 < 2 ^ 1024" by (rule power_strict_increasing) simp_all
    ultimately show False using o d_lo cb unfolding overflow_def by linarith
  qed
  then have d_hi: "d < of_int tw"
    using assms(3) by (simp add: expired_def Let_def d_def)
  have "fl d \<le> w" unfolding w_def using d_hi by (intro fl_mono) simp
  then have dw: "d \<le> w" by (simp add: d_def fsub_def)
  have "\<bar>real_of_int tw\<bar> \<le> clock_bound" using assms(1) d_lo d_hi by linarith
  then have w_abs: "\<bar>w\<bar> \<le> clock_bound" unfolding w_def by (rule fl_abs_le_clock_bound)
  then have w_fin: "\<not> overflow w" using cb by (intro not_overflow_power2) linarith
  have "\<bar>w - d\<bar> \<le> 2 ^ 1023"
    using w_abs d_lo dw clock_bound_double by linarith
  then have "\<bar>fl (w - d)\<bar> \<le> 2 ^ 1023" by (rule fl_abs_le_power2)
  then have r_fin: "\<not> overflow (fl (w - d))" by (rule not_overflow_power2)
  show "retry_after tw now oldest = Inr (retry_value tw now oldest)"
    using d_fin w_fin r_fin by (simp add: retry_after_def d_def w_def)
  have "0 \<le> fl (w - d)" using dw by (intro fl_nonneg) simp
  then have "0 \<le> py_int (fl (w - d))" by (rule py_int_nonneg)
  then show "0 < retry_value tw now oldest"
    by (simp add: retry_value_def d_def w_def)
qed

section \<open>Basic facts\<close>

lemma purge_dropWhile: "purge tw now q = dropWhile (expired tw now) q"
  by (induction q) simp_all

lemma purge_length_le: "length (purge tw now q) \<le> length q"
  by (simp add: purge_dropWhile length_dropWhile_le)

lemma purge_head_inside: "purge tw now q = t # q' \<Longrightarrow> \<not> expired tw now t"
  by (induction q) (auto split: if_splits)

lemma purge_all_expired: "\<forall>t \<in> set q. expired tw now t \<Longrightarrow> purge tw now q = []"
  by (induction q) simp_all

lemma purge_sorted: "sorted q \<Longrightarrow> sorted (purge tw now q)"
  by (simp add: purge_dropWhile sorted_dropWhile)

lemma purge_subset: "set (purge tw now q) \<subseteq> set q"
  by (simp add: purge_dropWhile set_dropWhileD subsetI)

lemma log_of_purge_expired [simp]:
  "log_of (purge_expired l i now) i = purge (time_window l) now (log_of l i)"
  by (simp add: purge_expired_def log_of_def)

lemma purge_expired_config [simp]:
  "max_requests (purge_expired l i now) = max_requests l"
  "time_window (purge_expired l i now) = time_window l"
  by (simp_all add: purge_expired_def)

lemma log_of_upd [simp]: "log_of (l\<lparr>requests := r(i \<mapsto> q)\<rparr>) i = q"
  by (simp add: log_of_def)

lemma check_config [simp]:
  "max_requests (snd (check_rate_limit l a now)) = max_requests l"
  "time_window (snd (check_rate_limit l a now)) = time_window l"
  by (auto simp: check_rate_limit_def Let_def purge_expired_def
      split: option.splits list.splits sum.splits)

lemma reset_config [simp]:
  "max_requests (reset l a) = max_requests l"
  "time_window (reset l a) = time_window l"
  by (auto simp: reset_def split: option.splits)

lemma check_frame: "a \<noteq> Some b \<Longrightarrow> requests (snd (check_rate_limit l a now)) b = requests l b"
  by (auto simp: check_rate_limit_def Let_def purge_expired_def
      split: option.splits list.splits sum.splits)

lemma reset_frame: "a \<noteq> Some b \<Longrightarrow> requests (reset l a) b = requests l b"
  by (auto simp: reset_def split: option.splits)

lemma check_log:
  "i \<noteq> [] \<Longrightarrow> log_of (snd (check_rate_limit l (Some i) now)) i =
     (let q = purge (time_window l) now (log_of l i)
      in if int (length q) < max_requests l then q @ [now] else q)"
  by (auto simp: check_rate_limit_def Let_def log_of_def purge_expired_def
      split: list.splits sum.splits)

lemma check_outcome_cong:
  assumes "max_requests l' = max_requests l" "time_window l' = time_window l"
    "requests l' b = requests l b"
  shows "fst (check_rate_limit l' (Some b) now) = fst (check_rate_limit l (Some b) now)"
  using assms
  by (auto simp: check_rate_limit_def Let_def log_of_def purge_expired_def
      split: list.splits sum.splits)

lemma check_admit:
  assumes "i \<noteq> []" "int (length (purge (time_window l) now (log_of l i))) < max_requests l"
  shows "check_rate_limit l (Some i) now =
    (Inr (True, 0),
     l\<lparr>requests := (requests l)(i \<mapsto> purge (time_window l) now (log_of l i) @ [now])\<rparr>)"
  using assms by (simp add: check_rate_limit_def Let_def purge_expired_def)

lemma check_deny:
  assumes "i \<noteq> []" "purge (time_window l) now (log_of l i) = oldest # rest"
    "max_requests l \<le> int (length (oldest # rest))"
  shows "check_rate_limit l (Some i) now =
    (denial (time_window l) oldest now, l\<lparr>requests := (requests l)(i \<mapsto> oldest # rest)\<rparr>)"
  using assms
  by (simp add: check_rate_limit_def Let_def purge_expired_def)

lemma check_admit_expired:
  assumes "i \<noteq> []" and "0 < max_requests l"
    and "\<forall>t0 \<in> set (log_of l i). expired (time_window l) now t0"
  shows "check_rate_limit l (Some i) now =
     (Inr (True, 0), l\<lparr>requests := (requests l)(i \<mapsto> [now])\<rparr>)"
proof -
  have "purge (time_window l) now (log_of l i) = []"
    using assms(3) by (simp add: purge_all_expired)
  with check_admit [of i l now] assms(1,2) show ?thesis by simp
qed


section \<open>Facts about histories\<close>

lemma log_of_check_cases:
  "log_of (snd (check_rate_limit l a now)) j = log_of l j \<or>
   log_of (snd (check_rate_limit l a now)) j = purge (time_window l) now (log_of l j) \<or>
   (int (length (purge (time_window l) now (log_of l j))) < max_requests l \<and>
    log_of (snd (check_rate_limit l a now)) j = purge (time_window l) now (log_of l j) @ [now])"
proof (cases a)
  case None
  then show ?thesis by (simp add: check_rate_limit_def)
next
  case (Some i)
  show ?thesis
  proof (cases "i = [] \<or> j \<noteq> i")
    case True
    then have "requests (snd (check_rate_limit l a now)) j = requests l j"
    proof
      assume "i = []"
      then show ?thesis using Some by (simp add: check_rate_limit_def)
    next
      assume "j \<noteq> i"
      then have "a \<noteq> Some j" using Some by simp
      then show ?thesis by (rule check_frame)
    qed
    then show ?thesis by (simp add: log_of_def)
  next
    case False
    then show ?thesis using Some check_log [of i l now] by (auto simp: Let_def)
  qed
qed

lemma log_of_reset_cases: "log_of (reset l a) j = log_of l j \<or> log_of (reset l a) j = []"
  by (auto simp: reset_def log_of_def split: option.splits)

lemma log_of_step_length:
  assumes "int (length (log_of l j)) \<le> max_requests l"
  shows "int (length (log_of (step l c) j)) \<le> max_requests l"
proof (cases c)
  case (Check a now)
  have "int (length (purge (time_window l) now (log_of l j))) \<le> max_requests l"
    using assms purge_length_le [of "time_window l" now "log_of l j"] by linarith
  then show ?thesis
    using Check assms log_of_check_cases [of l a now j] by auto
next
  case (Reset a)
  then show ?thesis
    using assms log_of_reset_cases [of l a j] by auto
qed

lemma step_config [simp]:
  "max_requests (step l c) = max_requests l" "time_window (step l c) = time_window l"
  by (cases c; simp)+

lemma run_config [simp]:
  "max_requests (run l cs) = max_requests l" "time_window (run l cs) = time_window l"
  by (induction cs arbitrary: l; simp)+

lemma run_length:
  "\<forall>j. int (length (log_of l j)) \<le> max_requests l \<Longrightarrow>
   int (length (log_of (run l cs) i)) \<le> max_requests l"
proof (induction cs arbitrary: l)
  case Nil
  then show ?case by simp
next
  case (Cons c cs)
  have "\<forall>j. int (length (log_of (step l c) j)) \<le> max_requests (step l c)"
    using Cons.prems by (simp add: log_of_step_length)
  from Cons.IH [OF this] show ?case by simp
qed

lemma init_log_of:
  assumes "init mr tw = Inr l0"
  shows "log_of l0 i = []" "max_requests l0 = mr" "time_window l0 = tw" "0 < mr" "0 < tw"
  using assms by (auto simp: init_def log_of_def split: if_splits)

text \<open>
  Chronological order: when the clock values read by the calls of a history never
  decrease, every log is sorted.
\<close>

lemma log_of_step_sorted:
  assumes "sorted (log_of l j)" "\<forall>t \<in> set (log_of l j). \<forall>s \<in> set (clock_reads (c # cs)). t \<le> s"
    "sorted (clock_reads (c # cs))"
  shows "sorted (log_of (step l c) j) \<and>
         (\<forall>t \<in> set (log_of (step l c) j). \<forall>s \<in> set (clock_reads cs). t \<le> s)"
proof (cases c)
  case (Check a now)
  let ?p = "purge (time_window l) now (log_of l j)"
  have p: "sorted ?p" "set ?p \<subseteq> set (log_of l j)"
    using assms(1) by (simp_all add: purge_sorted purge_subset)
  have le_now: "\<forall>t \<in> set (log_of l j). t \<le> now"
    using assms(2) Check by simp
  have later: "\<forall>s \<in> set (clock_reads cs). now \<le> s"
    using assms(3) Check by simp
  have old: "\<forall>t \<in> set (log_of l j). \<forall>s \<in> set (clock_reads cs). t \<le> s"
    using assms(2) Check by simp
  have "sorted (?p @ [now])"
    using p le_now by (auto simp: sorted_append)
  moreover have "\<forall>t \<in> set (?p @ [now]). \<forall>s \<in> set (clock_reads cs). t \<le> s"
    using p(2) old later by auto
  moreover have "\<forall>t \<in> set ?p. \<forall>s \<in> set (clock_reads cs). t \<le> s"
    using p(2) old by auto
  ultimately show ?thesis
    using Check assms(1) old p(1) log_of_check_cases [of l a now j] by auto
next
  case (Reset a)
  then show ?thesis
    using assms(1,2) log_of_reset_cases [of l a j] by auto
qed

lemma run_sorted:
  assumes "sorted (clock_reads cs)"
    "\<forall>j. sorted (log_of l j) \<and> (\<forall>t \<in> set (log_of l j). \<forall>s \<in> set (clock_reads cs). t \<le> s)"
  shows "sorted (log_of (run l cs) i)"
  using assms
proof (induction cs arbitrary: l)
  case Nil
  then show ?case by simp
next
  case (Cons c cs)
  have "sorted (clock_reads cs)"
    using Cons.prems(1) by (cases c) simp_all
  moreover have "\<forall>j. sorted (log_of (step l c) j) \<and>
      (\<forall>t \<in> set (log_of (step l c) j). \<forall>s \<in> set (clock_reads cs). t \<le> s)"
    using Cons.prems log_of_step_sorted [of l _ c cs] by blast
  ultimately have "sorted (log_of (run (step l c) cs) i)" by (rule Cons.IH)
  then show ?case by simp
qed

lemma chronological_history_sorted:
  assumes "init mr tw = Inr l0" "sorted (clock_reads cs)"
  shows "sorted (log_of (run l0 cs) i)"
  using assms(2) by (rule run_sorted) (simp add: init_log_of(1) [OF assms(1)])

text \<open>
  In a log in chronological order the purge leaves no expired entry behind: an entry
  older than an expired one is expired too, because the rounding is monotone.
\<close>

lemma expired_older:
  assumes "t \<le> t'" "expired tw now t'"
  shows "expired tw now t"
proof -
  have le: "fsub now t' \<le> fsub now t"
    unfolding fsub_def using assms(1) by (intro fl_mono) simp
  show ?thesis
  proof (cases "overflow (fsub now t')")
    case True
    then have "0 < fsub now t'" using assms(2) by (simp add: expired_def Let_def)
    moreover from this True le have "overflow (fsub now t)"
      unfolding overflow_def by linarith
    ultimately show ?thesis using le by (simp add: expired_def Let_def)
  next
    case False
    then have w: "of_int tw \<le> fsub now t'" using assms(2) by (simp add: expired_def Let_def)
    show ?thesis
    proof (cases "overflow (fsub now t)")
      case True
      then have "0 < fsub now t" using False le unfolding overflow_def by linarith
      then show ?thesis using True by (simp add: expired_def Let_def)
    next
      case False
      then show ?thesis using w le by (simp add: expired_def Let_def)
    qed
  qed
qed

lemma purge_sorted_inside:
  assumes "sorted q"
  shows "\<forall>t \<in> set (purge tw now q). \<not> expired tw now t"
  using assms
proof (induction q)
  case Nil
  then show ?case by simp
next
  case (Cons t q)
  then show ?case by (auto dest: expired_older)
qed

section \<open>Facts about consecutive calls\<close>

lemma check_many_append:
  "check_many l i (xs @ ys) =
     (case check_many l i xs of (rs, l') \<Rightarrow>
        (case check_many l' i ys of (rs', l'') \<Rightarrow> (rs @ rs', l'')))"
  by (induction xs arbitrary: l) (auto split: prod.splits)

lemma check_many_Cons:
  "fst (check_many l i (t # ts)) =
     fst (check_rate_limit l (Some i) t) # fst (check_many (snd (check_rate_limit l (Some i) t)) i ts)"
  "snd (check_many l i (t # ts)) = snd (check_many (snd (check_rate_limit l (Some i) t)) i ts)"
  by (simp_all split: prod.splits)

lemma check_many_config [simp]:
  "max_requests (snd (check_many l i ts)) = max_requests l \<and>
   time_window (snd (check_many l i ts)) = time_window l"
proof (induction ts arbitrary: l)
  case Nil
  show ?case by simp
next
  case (Cons t ts)
  show ?case
    using Cons [of "snd (check_rate_limit l (Some i) t)"]
    by (simp add: check_many_Cons del: check_many.simps)
qed

text \<open>While the log has room for all the calls, every call is admitted.\<close>

lemma check_many_room:
  assumes "i \<noteq> []" "int (length (log_of l i)) + int (length ts) \<le> max_requests l"
  shows "fst (check_many l i ts) = replicate (length ts) (Inr (True, 0))"
  using assms(2)
proof (induction ts arbitrary: l)
  case Nil
  then show ?case by simp
next
  case (Cons t ts)
  let ?p = "purge (time_window l) t (log_of l i)"
  let ?l' = "snd (check_rate_limit l (Some i) t)"
  have short: "int (length ?p) < max_requests l"
    using Cons.prems purge_length_le [of "time_window l" t "log_of l i"] by simp
  from check_admit [OF assms(1) this]
  have c: "check_rate_limit l (Some i) t =
      (Inr (True, 0), l\<lparr>requests := (requests l)(i \<mapsto> ?p @ [t])\<rparr>)" .
  then have "log_of ?l' i = ?p @ [t]" by simp
  then have "int (length (log_of ?l' i)) + int (length ts) \<le> max_requests ?l'"
    using Cons.prems purge_length_le [of "time_window l" t "log_of l i"] by simp
  then have "fst (check_many ?l' i ts) = replicate (length ts) (Inr (True, 0))"
    by (rule Cons.IH)
  then show ?case using c by (simp add: check_many_Cons del: check_many.simps)
qed

text \<open>While the first entry stays and there is room, the log grows by the clock values.\<close>

lemma check_many_fill:
  assumes "i \<noteq> []" "log_of l i = h # q" "\<forall>t \<in> set ts. \<not> expired (time_window l) t h"
    "int (length (h # q)) + int (length ts) \<le> max_requests l"
  shows "fst (check_many l i ts) = replicate (length ts) (Inr (True, 0)) \<and>
         log_of (snd (check_many l i ts)) i = h # q @ ts"
  using assms(2-)
proof (induction ts arbitrary: l q)
  case Nil
  then show ?case by simp
next
  case (Cons t ts)
  let ?l' = "l\<lparr>requests := (requests l)(i \<mapsto> (h # q) @ [t])\<rparr>"
  have keep: "purge (time_window l) t (log_of l i) = h # q"
    using Cons.prems(1,2) by simp
  have "int (length (purge (time_window l) t (log_of l i))) < max_requests l"
    using Cons.prems(3) keep by simp
  from check_admit [OF assms(1) this]
  have c: "check_rate_limit l (Some i) t = (Inr (True, 0), ?l')"
    using keep by simp
  have "fst (check_many ?l' i ts) = replicate (length ts) (Inr (True, 0)) \<and>
        log_of (snd (check_many ?l' i ts)) i = h # (q @ [t]) @ ts"
    using Cons.prems by (intro Cons.IH) simp_all
  then show ?case using c by (simp add: check_many_Cons del: check_many.simps)
qed

lemma check_many_fresh:
  assumes "i \<noteq> []" "ts \<noteq> []" "0 < max_requests l"
    "\<forall>t0 \<in> set (log_of l i). expired (time_window l) (hd ts) t0"
    "int (length ts) \<le> max_requests l"
    "\<forall>t \<in> set ts. \<not> expired (time_window l) t (hd ts)"
  shows "fst (check_many l i ts) = replicate (length ts) (Inr (True, 0)) \<and>
         log_of (snd (check_many l i ts)) i = ts"
proof (cases ts)
  case Nil
  with assms(2) show ?thesis by simp
next
  case (Cons t1 rest)
  let ?l1 = "l\<lparr>requests := (requests l)(i \<mapsto> [t1])\<rparr>"
  have c: "check_rate_limit l (Some i) t1 = (Inr (True, 0), ?l1)"
    using assms(1,3,4) Cons by (intro check_admit_expired) simp_all
  have "fst (check_many ?l1 i rest) = replicate (length rest) (Inr (True, 0)) \<and>
        log_of (snd (check_many ?l1 i rest)) i = t1 # [] @ rest"
    using assms(5,6) Cons by (intro check_many_fill [OF assms(1)]) simp_all
  then show ?thesis using c Cons by (simp add: check_many_Cons del: check_many.simps)
qed

lemma check_many_denied:
  assumes "i \<noteq> []" "log_of l i = h # q" "max_requests l \<le> int (length (h # q))"
    "\<forall>t \<in> set ts. \<not> expired (time_window l) t h"
  shows "check_many l i ts = (map (denial (time_window l) h) ts, l)"
  using assms(4)
proof (induction ts)
  case Nil
  then show ?case by simp
next
  case (Cons t ts)
  have keep: "purge (time_window l) t (log_of l i) = h # q"
    using Cons.prems assms(2) by simp
  have "requests l i = Some (h # q)"
    using assms(2) by (auto simp: log_of_def split: option.splits)
  then have "(requests l)(i \<mapsto> h # q) = requests l" by (simp add: fun_upd_idem)
  then have same: "l\<lparr>requests := (requests l)(i \<mapsto> h # q)\<rparr> = l" by simp
  have c: "check_rate_limit l (Some i) t = (denial (time_window l) h t, l)"
    using check_deny [OF assms(1) keep assms(3)] same by simp
  have "check_many l i ts = (map (denial (time_window l) h) ts, l)"
    using Cons.prems by (intro Cons.IH) simp
  then show ?case using c by simp
qed

text \<open>
  Calls in one window as the code measures it, from a log without unexpired entries:
  admissions until the quota is reached, denials after.
\<close>

lemma check_many_window:
  assumes "i \<noteq> []" "ts \<noteq> []" "0 < max_requests l"
    "\<forall>t0 \<in> set (log_of l i). expired (time_window l) (hd ts) t0"
    "\<forall>t \<in> set ts. \<not> expired (time_window l) t (hd ts)"
  shows "fst (check_many l i ts) =
     replicate (min (nat (max_requests l)) (length ts)) (Inr (True, 0)) @
     map (denial (time_window l) (hd ts)) (drop (nat (max_requests l)) ts)"
proof -
  let ?n = "nat (max_requests l)"
  let ?front = "take ?n ts"
  have n: "0 < ?n" using assms(3) by simp
  then have fne: "?front \<noteq> []" using assms(2) by (cases ts) auto
  have hd: "hd ?front = hd ts" using n assms(2) by (cases ts) (auto simp: take_Suc_conv_app_nth)
  have sub: "set ?front \<subseteq> set ts" by (rule set_take_subset)
  have front: "fst (check_many l i ?front) = replicate (length ?front) (Inr (True, 0)) \<and>
        log_of (snd (check_many l i ?front)) i = ?front"
    using assms(3,4,5) hd sub by (intro check_many_fresh [OF assms(1) fne]) auto
  obtain rs l' where run: "check_many l i ?front = (rs, l')" by (cases "check_many l i ?front")
  then have rs: "rs = replicate (min ?n (length ts)) (Inr (True, 0))" and log: "log_of l' i = ?front"
    using front by (simp_all add: min.commute)
  have cfg: "max_requests l' = max_requests l" "time_window l' = time_window l"
    using check_many_config [of l i ?front] run by simp_all
  have split: "fst (check_many l i ts) = rs @ fst (check_many l' i (drop ?n ts))"
    using run check_many_append [of l i ?front "drop ?n ts"]
    by (simp split: prod.splits)
  show ?thesis
  proof (cases "length ts \<le> ?n")
    case True
    then show ?thesis using split rs by simp
  next
    case False
    then have full: "length ?front = ?n" by simp
    obtain rest where fr: "?front = hd ts # rest"
      using fne hd by (metis list.collapse)
    have "max_requests l' \<le> int (length (hd ts # rest))"
      using full fr cfg(1) assms(3) by (metis nat_0_le nle_le order_less_imp_le)
    moreover have "\<forall>t \<in> set (drop ?n ts). \<not> expired (time_window l') t (hd ts)"
      using assms(5) cfg(2) by (auto dest: in_set_dropD)
    moreover have "log_of l' i = hd ts # rest" using log fr by simp
    ultimately have "check_many l' i (drop ?n ts) =
        (map (denial (time_window l') (hd ts)) (drop ?n ts), l')"
      by (intro check_many_denied [OF assms(1)])
    then show ?thesis using split rs cfg(2) by simp
  qed
qed


section \<open>Evaluating the examples\<close>

lemma not_overflow_small [simp]: "\<bar>x\<bar> \<le> 2 ^ 53 \<Longrightarrow> overflow x = False"
proof -
  assume "\<bar>x\<bar> \<le> 2 ^ 53"
  moreover have "(2 :: real) ^ 53 < 2 ^ 1024" by (rule power_strict_increasing) simp_all
  ultimately have "\<not> 2 ^ 1024 \<le> \<bar>x\<bar>" by linarith
  then show ?thesis unfolding overflow_def by (simp only:)
qed

lemma tiny_eval [simp]:
  "fl tiny = tiny" "fl (10 - tiny) = 10" "overflow tiny = False"
  "(10 \<le> tiny) = False" "(tiny < 0) = False"
  using tiny_bounds by (simp_all add: fl_tiny fl_10_minus_tiny)

lemma fsub_tiny [simp]:
  "fsub tiny 0 = tiny" "fsub tiny tiny = 0" "fsub 10 tiny = 10"
  by (simp_all add: fsub_def)

lemma expired_tiny [simp]:
  "expired 10 tiny 0 = False" "expired 10 tiny tiny = False" "expired 10 10 tiny = True"
  using tiny_bounds by (simp_all add: expired_def Let_def)

lemmas evaluate =
  check_rate_limit_def denial_def retry_after_def retry_value_def purge_expired_def
  log_of_def expired_def fsub_def py_int_def Let_def

text \<open>The example state \<open>u1_full\<close> is the one the three admitted calls produce.\<close>

lemma u1_full_reached:
  "init 3 10 = Inr u1_fresh \<and>
   run u1_fresh [Check (Some ''u1'') 0, Check (Some ''u1'') 1, Check (Some ''u1'') 2] = u1_full"
  by (simp add: init_def u1_fresh_def u1_full_def evaluate)

text \<open>
  The specification's example: quota 3, window 10, entries 0, 1, 2. The call at 3 is
  denied with 8; the call at 11 drops the entries 0 and 1 and is admitted.
\<close>

lemma example_denied_at_3:
  "check_rate_limit u1_full (Some ''u1'') 3 = (Inr (False, 8), u1_full)"
  by (simp add: u1_full_def evaluate)

lemma example_admitted_at_11:
  "check_rate_limit u1_full (Some ''u1'') 11 =
     (Inr (True, 0), u1_full\<lparr>requests := [''u1'' \<mapsto> [2, 11]]\<rparr>)"
  by (simp add: u1_full_def evaluate)

section \<open>Construction\<close>

text \<open>
  C6. \<open>init\<close> raises \<open>ValueError\<close> (the error the specification calls
  InvalidConfiguration) when \<open>max_requests \<le> 0\<close> or \<open>time_window \<le> 0\<close>; when both
  are positive it returns a limiter with the given configuration and an empty map.
  The function computes nothing else.
\<close>

theorem init_validates:
  "(mr \<le> 0 \<longrightarrow> init mr tw = Inl (ValueError ''max_requests must be greater than 0'')) \<and>
   (0 < mr \<and> tw \<le> 0 \<longrightarrow> init mr tw = Inl (ValueError ''time_window must be greater than 0'')) \<and>
   (0 < mr \<and> 0 < tw \<longrightarrow>
      init mr tw = Inr \<lparr>max_requests = mr, time_window = tw, requests = Map.empty\<rparr>)"
  by (simp add: init_def)

theorem init_validates_witness:
  "init 0 10 = Inl (ValueError ''max_requests must be greater than 0'') \<and>
   init 3 (-1) = Inl (ValueError ''time_window must be greater than 0'') \<and>
   init 3 10 = Inr \<lparr>max_requests = 3, time_window = 10, requests = Map.empty\<rparr>"
  using init_validates [of 0 10] init_validates [of 3 "-1"] init_validates [of 3 10]
  by simp

section \<open>Invalid identifiers\<close>



section \<open>Denial and the retry-after value\<close>

text \<open>
  C2, as amended. Let the identifier be non-empty, the quota positive, and the window
  and the clock differences within \<open>clock_bound\<close>. If the log trimmed by the purge has at
  least \<open>max_requests\<close> entries and is in chronological order, then its first entry is
  the oldest remaining timestamp, and the call returns \<open>False\<close> with the retry-after
  value \<open>int(time_window - (current_time - oldest)) + 1\<close> as double-precision
  arithmetic gives it: each subtraction rounded to the nearest double, then truncated.
  This value is strictly positive, and the limiter keeps the trimmed log for the
  identifier with nothing appended.
\<close>

theorem denied_retry_after:
  assumes "i \<noteq> []" and "0 < max_requests l"
    and "max_requests l \<le> int (length (purge (time_window l) now (log_of l i)))"
    and "sorted (purge (time_window l) now (log_of l i))"
    and "of_int (time_window l) \<le> clock_bound"
    and "\<forall>t \<in> set (log_of l i). - clock_bound \<le> now - t"
  shows "\<exists>oldest rest.
      purge (time_window l) now (log_of l i) = oldest # rest \<and>
      (\<forall>t \<in> set rest. oldest \<le> t) \<and>
      check_rate_limit l (Some i) now =
        (Inr (False, py_int (fl (fl (of_int (time_window l)) - fsub now oldest)) + 1),
         l\<lparr>requests := (requests l)(i \<mapsto> oldest # rest)\<rparr>) \<and>
      0 < py_int (fl (fl (of_int (time_window l)) - fsub now oldest)) + 1"
proof (cases "purge (time_window l) now (log_of l i)")
  case Nil
  with assms(2,3) show ?thesis by simp
next
  case (Cons oldest rest)
  have first: "\<forall>t \<in> set rest. oldest \<le> t"
    using assms(4) Cons by simp
  have "oldest \<in> set (log_of l i)"
    using Cons purge_subset [of "time_window l" now "log_of l i"] by auto
  then have "- clock_bound \<le> now - oldest" using assms(6) by blast
  moreover have "\<not> expired (time_window l) now oldest"
    using Cons by (rule purge_head_inside)
  ultimately have r: "retry_after (time_window l) now oldest =
      Inr (retry_value (time_window l) now oldest)"
    "0 < retry_value (time_window l) now oldest"
    using assms(5) by (simp_all add: retry_after_finite)
  have "max_requests l \<le> int (length (oldest # rest))" using assms(3) Cons by simp
  from check_deny [OF assms(1) Cons this] r first Cons show ?thesis
    by (simp add: denial_def retry_value_def)
qed

theorem denied_retry_after_witness:
  "\<exists>oldest rest.
      purge (time_window u1_full) 3 (log_of u1_full ''u1'') = oldest # rest \<and>
      (\<forall>t \<in> set rest. oldest \<le> t) \<and>
      check_rate_limit u1_full (Some ''u1'') 3 =
        (Inr (False, py_int (fl (fl (of_int (time_window u1_full)) - fsub 3 oldest)) + 1),
         u1_full\<lparr>requests := (requests u1_full)(''u1'' \<mapsto> oldest # rest)\<rparr>) \<and>
      0 < py_int (fl (fl (of_int (time_window u1_full)) - fsub 3 oldest)) + 1"
  by (rule denied_retry_after)
    (simp_all add: u1_full_def log_of_def expired_def fsub_def Let_def clock_bound_def)

text \<open>
  The value is not the floor of the exact difference. With quota 1 and window 10, after
  a call at the clock value 0 a call at \<open>tiny\<close> is denied with 11: the double nearest to
  \<open>10 - tiny\<close> is 10. The floor of the exact \<open>10 - (tiny - 0)\<close> is 9.
\<close>

theorem retry_after_rounding_counterexample:
  "init 1 10 = Inr quota1 \<and>
   log_of (run quota1 [Check (Some ''u1'') 0]) ''u1'' = [0] \<and>
   fst (check_rate_limit (run quota1 [Check (Some ''u1'') 0]) (Some ''u1'') tiny) =
     Inr (False, 11) \<and>
   \<lfloor>10 - (tiny - 0)\<rfloor> + 1 = (10 :: int)"
proof -
  have "\<lfloor>10 - (tiny - 0)\<rfloor> = (9 :: int)"
    using tiny_bounds by (simp add: floor_eq_iff)
  then show ?thesis
    by (simp add: init_def quota1_def evaluate)
qed

section \<open>Entries left behind an unexpired one\<close>

text \<open>
  C3. The loop of lines 58 to 60 stops at the first entry that is inside the window.
  A call reads the clock before it takes the lock, so a call that takes the lock later
  can append an earlier timestamp. With quota 2 and window 10, the calls that read 5
  and then 0 leave the log \<open>[5, 0]\<close>. The purge of a call at 12 stops at 5 and keeps 0,
  which is 12 seconds old; the admission decision counts it and denies the call.
\<close>

theorem unordered_log_keeps_expired:
  "init 2 10 = Inr quota2 \<and>
   log_of (run quota2 [Check (Some ''u1'') 5, Check (Some ''u1'') 0]) ''u1'' = [5, 0] \<and>
   log_of (purge_expired (run quota2 [Check (Some ''u1'') 5, Check (Some ''u1'') 0]) ''u1'' 12)
     ''u1'' = [5, 0] \<and>
   expired 10 12 0 \<and>
   fst (check_rate_limit (run quota2 [Check (Some ''u1'') 5, Check (Some ''u1'') 0])
     (Some ''u1'') 12) = Inr (False, 4)"
  by (simp add: init_def quota2_def evaluate)

text \<open>
  C4. In the same history the entry 0 is 10 seconds old at the clock value 10, the
  length of the window, and it is the last call that read 0. It still counts against
  the quota of 2: the call at 10 is denied.
\<close>

theorem expired_entry_still_counts:
  "init 2 10 = Inr quota2 \<and>
   clock_reads [Check (Some ''u1'') 5, Check (Some ''u1'') 0] = [5, 0] \<and>
   expired 10 10 0 \<and> \<not> expired 10 10 5 \<and>
   (10 :: real) \<le> 10 - 0 \<and>
   fst (check_rate_limit (run quota2 [Check (Some ''u1'') 5, Check (Some ''u1'') 0])
     (Some ''u1'') 10) = Inr (False, 6)"
  by (simp add: init_def quota2_def evaluate)

section \<open>Independence of identifiers\<close>

text \<open>
  C9. Let \<open>a\<close> be any identifier argument other than the string \<open>b\<close>. A call of
  \<open>check_rate_limit\<close> or of \<open>reset\<close> with \<open>a\<close> leaves the map's entry for \<open>b\<close> as it
  was, and a later \<open>check_rate_limit\<close> for \<open>b\<close> returns what it would have returned
  without that call, at any clock value.
\<close>

theorem independent_identifiers:
  assumes "a \<noteq> Some b"
  shows "requests (snd (check_rate_limit l a t)) b = requests l b \<and>
         requests (reset l a) b = requests l b \<and>
         fst (check_rate_limit (snd (check_rate_limit l a t)) (Some b) t') =
           fst (check_rate_limit l (Some b) t') \<and>
         fst (check_rate_limit (reset l a) (Some b) t') = fst (check_rate_limit l (Some b) t')"
proof (intro conjI)
  show "requests (snd (check_rate_limit l a t)) b = requests l b"
    using assms by (rule check_frame)
  show "requests (reset l a) b = requests l b"
    using assms by (rule reset_frame)
  show "fst (check_rate_limit (snd (check_rate_limit l a t)) (Some b) t') =
      fst (check_rate_limit l (Some b) t')"
    by (rule check_outcome_cong) (simp_all add: check_frame [OF assms])
  show "fst (check_rate_limit (reset l a) (Some b) t') = fst (check_rate_limit l (Some b) t')"
    by (rule check_outcome_cong) (simp_all add: reset_frame [OF assms])
qed

theorem independent_identifiers_witness:
  "requests (snd (check_rate_limit u1_full (Some ''u2'') 3)) ''u1'' = requests u1_full ''u1'' \<and>
   requests (reset u1_full (Some ''u2'')) ''u1'' = requests u1_full ''u1'' \<and>
   fst (check_rate_limit (snd (check_rate_limit u1_full (Some ''u2'') 3)) (Some ''u1'') 4) =
     fst (check_rate_limit u1_full (Some ''u1'') 4) \<and>
   fst (check_rate_limit (reset u1_full (Some ''u2'')) (Some ''u1'') 4) =
     fst (check_rate_limit u1_full (Some ''u1'') 4)"
  by (rule independent_identifiers) simp

section \<open>Histories\<close>

text \<open>
  C5. After construction and any sequence of \<open>check_rate_limit\<close> and \<open>reset\<close> calls,
  every log stored in the map has at most \<open>max_requests\<close> entries. A call with a
  non-empty identifier leaves for it the trimmed log, with \<open>current_time\<close> appended
  exactly when the trimmed log is shorter than \<open>max_requests\<close>; nothing but the purge
  and \<open>reset\<close> removes entries.
\<close>

theorem quota_never_exceeded:
  assumes "init mr tw = Inr l0"
  shows "(\<forall>i q. requests (run l0 cs) i = Some q \<longrightarrow> int (length q) \<le> mr) \<and>
         (j \<noteq> [] \<longrightarrow>
            log_of (snd (check_rate_limit l (Some j) now)) j =
              (if int (length (purge (time_window l) now (log_of l j))) < max_requests l
               then purge (time_window l) now (log_of l j) @ [now]
               else purge (time_window l) now (log_of l j)))"
proof -
  have "\<forall>j. int (length (log_of l0 j)) \<le> max_requests l0"
    using init_log_of(1,2,4) [OF assms] by simp
  then have len: "int (length (log_of (run l0 cs) i)) \<le> max_requests l0" for i
    by (rule run_length)
  have "int (length q) \<le> mr" if "requests (run l0 cs) i = Some q" for i q
    using len [of i] that init_log_of(2) [OF assms] by (simp add: log_of_def)
  then have "\<forall>i q. requests (run l0 cs) i = Some q \<longrightarrow> int (length q) \<le> mr"
    by blast
  then show ?thesis by (simp add: check_log Let_def)
qed

theorem quota_never_exceeded_witness:
  "init 3 10 = Inr u1_fresh \<and>
   requests (run u1_fresh [Check (Some ''u1'') 0, Check (Some ''u1'') 1, Check (Some ''u1'') 2,
      Check (Some ''u1'') 3]) ''u1'' = Some [0, 1, 2] \<and>
   int (length [0, 1, 2 :: real]) \<le> 3 \<and>
   log_of (snd (check_rate_limit u1_full (Some ''u1'') 3)) ''u1'' = [0, 1, 2] \<and>
   log_of (snd (check_rate_limit u1_full (Some ''u1'') 11)) ''u1'' = [2, 11]"
proof -
  let ?cs = "[Check (Some ''u1'') 0, Check (Some ''u1'') 1, Check (Some ''u1'') 2,
      Check (Some ''u1'') 3]"
  have h: "init 3 10 = Inr u1_fresh"
    by (simp add: init_def u1_fresh_def)
  have r: "requests (run u1_fresh ?cs) ''u1'' = Some [0, 1, 2]"
    by (simp add: u1_fresh_def evaluate)
  from quota_never_exceeded [OF h, of ?cs] r have len: "int (length [0, 1, 2 :: real]) \<le> 3"
    by blast
  have full: "log_of (snd (check_rate_limit u1_full (Some ''u1'') 3)) ''u1'' = [0, 1, 2]"
    using quota_never_exceeded [OF h, of _ "''u1''" u1_full 3]
    by (simp add: u1_full_def log_of_def expired_def fsub_def Let_def)
  have room: "log_of (snd (check_rate_limit u1_full (Some ''u1'') 11)) ''u1'' = [2, 11]"
    using quota_never_exceeded [OF h, of _ "''u1''" u1_full 11]
    by (simp add: u1_full_def log_of_def expired_def fsub_def Let_def)
  from h r len full room show ?thesis by blast
qed

section \<open>Calls in one window\<close>

lemma drop_all_but_last: "length ts = Suc n \<Longrightarrow> drop n ts = [last ts]"
proof -
  assume len: "length ts = Suc n"
  then have "ts \<noteq> []" by auto
  then have "ts = butlast ts @ [last ts]" by simp
  moreover have "length (butlast ts) = n" using len by simp
  ultimately show ?thesis by (metis append_eq_conv_conj)
qed

lemma window_outcomes:
  assumes "i \<noteq> []" "0 < max_requests l" "ts \<noteq> []"
    "\<forall>t0 \<in> set (log_of l i). expired (time_window l) (hd ts) t0"
    "of_int (time_window l) \<le> clock_bound"
    "\<forall>t \<in> set ts. fsub t (hd ts) < of_int (time_window l) \<and> - clock_bound \<le> t - hd ts"
  shows "fst (check_many l i ts) =
      replicate (min (nat (max_requests l)) (length ts)) (Inr (True, 0)) @
      map (\<lambda>t. Inr (False, retry_value (time_window l) t (hd ts)))
        (drop (nat (max_requests l)) ts)"
    and "\<forall>t \<in> set ts. 0 < retry_value (time_window l) t (hd ts)"
proof -
  have "hd ts \<in> set ts" using assms(3) by simp
  then have "fsub (hd ts) (hd ts) < of_int (time_window l)" using assms(6) by blast
  then have pos: "0 < time_window l" by (simp add: fsub_def)
  have inside: "\<forall>t \<in> set ts. \<not> expired (time_window l) t (hd ts)"
    using assms(6) by (simp add: expired_iff [OF pos assms(5)] not_le)
  have fin: "retry_after (time_window l) t (hd ts) = Inr (retry_value (time_window l) t (hd ts))
      \<and> 0 < retry_value (time_window l) t (hd ts)" if "t \<in> set ts" for t
    using that assms(5,6) inside by (simp add: retry_after_finite)
  then show "\<forall>t \<in> set ts. 0 < retry_value (time_window l) t (hd ts)" by blast
  have "denial (time_window l) (hd ts) t = Inr (False, retry_value (time_window l) t (hd ts))"
    if "t \<in> set (drop (nat (max_requests l)) ts)" for t
    using fin [of t] that by (auto simp: denial_def dest: in_set_dropD)
  then have "map (denial (time_window l) (hd ts)) (drop (nat (max_requests l)) ts) =
      map (\<lambda>t. Inr (False, retry_value (time_window l) t (hd ts)))
        (drop (nat (max_requests l)) ts)"
    by simp
  then show "fst (check_many l i ts) =
      replicate (min (nat (max_requests l)) (length ts)) (Inr (True, 0)) @
      map (\<lambda>t. Inr (False, retry_value (time_window l) t (hd ts)))
        (drop (nat (max_requests l)) ts)"
    using check_many_window [OF assms(1,3,2,4) inside] by simp
qed

text \<open>
  C1, as amended. Let the identifier be non-empty and the quota \<open>N = max_requests\<close> at
  least 1, and start from a limiter in which every entry of the identifier's log has
  expired when the first call is made. Consecutive calls for the identifier, as long as
  they are at most \<open>N\<close>, all return \<open>(True, 0)\<close>, whatever their clock values. Of
  \<open>N + 1\<close> calls the last returns \<open>False\<close> with a strictly positive retry-after value
  when the elapsed time that the code computes for each call, the double-precision
  difference between its clock value and that of the first call, is below the window
  (and the window and the differences are within \<open>clock_bound\<close>).
\<close>

theorem quota_then_deny:
  assumes "i \<noteq> []" and "0 < max_requests l" and "ts \<noteq> []"
    and "\<forall>t0 \<in> set (log_of l i). expired (time_window l) (hd ts) t0"
  shows "(int (length ts) \<le> max_requests l \<longrightarrow>
            fst (check_many l i ts) = replicate (length ts) (Inr (True, 0))) \<and>
         (length ts = nat (max_requests l) + 1 \<and> of_int (time_window l) \<le> clock_bound \<and>
          (\<forall>t \<in> set ts. fsub t (hd ts) < of_int (time_window l) \<and>
                          - clock_bound \<le> t - hd ts) \<longrightarrow>
            fst (check_many l i ts) =
              replicate (nat (max_requests l)) (Inr (True, 0)) @
              [Inr (False, retry_value (time_window l) (last ts) (hd ts))] \<and>
            0 < retry_value (time_window l) (last ts) (hd ts))"
proof (intro conjI impI)
  assume short: "int (length ts) \<le> max_requests l"
  obtain t1 rest where ts: "ts = t1 # rest" using assms(3) by (cases ts) auto
  let ?l1 = "l\<lparr>requests := (requests l)(i \<mapsto> [t1])\<rparr>"
  have c: "check_rate_limit l (Some i) t1 = (Inr (True, 0), ?l1)"
    using assms(1,2,4) ts by (intro check_admit_expired) simp_all
  have "fst (check_many ?l1 i rest) = replicate (length rest) (Inr (True, 0))"
    using short ts by (intro check_many_room [OF assms(1)]) simp
  then show "fst (check_many l i ts) = replicate (length ts) (Inr (True, 0))"
    using c ts by (simp add: check_many_Cons del: check_many.simps)
next
  assume h: "length ts = nat (max_requests l) + 1 \<and> of_int (time_window l) \<le> clock_bound \<and>
      (\<forall>t \<in> set ts. fsub t (hd ts) < of_int (time_window l) \<and> - clock_bound \<le> t - hd ts)"
  then have len: "length ts = Suc (nat (max_requests l))" by simp
  note w = window_outcomes [OF assms(1,2,3,4), of]
  have "fst (check_many l i ts) =
      replicate (min (nat (max_requests l)) (length ts)) (Inr (True, 0)) @
      map (\<lambda>t. Inr (False, retry_value (time_window l) t (hd ts)))
        (drop (nat (max_requests l)) ts)"
    using h by (intro w(1)) simp_all
  then show "fst (check_many l i ts) =
      replicate (nat (max_requests l)) (Inr (True, 0)) @
      [Inr (False, retry_value (time_window l) (last ts) (hd ts))]"
    using len by (simp add: drop_all_but_last)
  have "\<forall>t \<in> set ts. 0 < retry_value (time_window l) t (hd ts)"
    using h by (intro w(2)) simp_all
  moreover have "last ts \<in> set ts" using assms(3) by simp
  ultimately show "0 < retry_value (time_window l) (last ts) (hd ts)" by blast
qed

theorem quota_then_deny_witness:
  "fst (check_many u1_fresh ''u1'' [0, 1, 2]) =
     [Inr (True, 0), Inr (True, 0), Inr (True, 0)] \<and>
   fst (check_many u1_fresh ''u1'' [0, 1, 2, 3]) =
     [Inr (True, 0), Inr (True, 0), Inr (True, 0), Inr (False, 8)]"
proof -
  have start: "''u1'' \<noteq> [] \<and> 0 < max_requests u1_fresh \<and>
      (\<forall>t0 \<in> set (log_of u1_fresh ''u1''). expired (time_window u1_fresh) 0 t0)"
    by (simp add: u1_fresh_def log_of_def)
  have inside: "length [0, 1, 2, 3 :: real] = nat (max_requests u1_fresh) + 1 \<and>
      of_int (time_window u1_fresh) \<le> clock_bound \<and>
      (\<forall>t \<in> set [0, 1, 2, 3]. fsub t (hd [0, 1, 2, 3]) < of_int (time_window u1_fresh) \<and>
         - clock_bound \<le> t - hd [0, 1, 2, 3])"
    by (simp add: u1_fresh_def fsub_def clock_bound_def)
  have three: "replicate (nat (max_requests u1_fresh)) (Inr (True, 0) :: outcome) =
      [Inr (True, 0), Inr (True, 0), Inr (True, 0)]"
    by (simp add: u1_fresh_def numeral_3_eq_3)
  have eight: "retry_value (time_window u1_fresh) (last [0, 1, 2, 3]) (hd [0, 1, 2, 3]) = 8"
    by (simp add: u1_fresh_def retry_value_def fsub_def py_int_def)
  have "fst (check_many u1_fresh ''u1'' [0, 1, 2]) = replicate (length [0, 1, 2 :: real]) (Inr (True, 0))"
    using quota_then_deny [of "''u1''" u1_fresh "[0, 1, 2]"] start
    by (simp add: u1_fresh_def del: check_many.simps)
  then have a: "fst (check_many u1_fresh ''u1'' [0, 1, 2]) =
      [Inr (True, 0), Inr (True, 0), Inr (True, 0)]"
    by (simp add: numeral_3_eq_3 del: check_many.simps)
  have "fst (check_many u1_fresh ''u1'' [0, 1, 2, 3]) =
      replicate (nat (max_requests u1_fresh)) (Inr (True, 0)) @
      [Inr (False, retry_value (time_window u1_fresh) (last [0, 1, 2, 3]) (hd [0, 1, 2, 3]))]"
    using quota_then_deny [of "''u1''" u1_fresh "[0, 1, 2, 3]"] start inside
    by (simp del: check_many.simps)
  then have b: "fst (check_many u1_fresh ''u1'' [0, 1, 2, 3]) =
      [Inr (True, 0), Inr (True, 0), Inr (True, 0), Inr (False, 8)]"
    by (simp only: three eight) simp
  from a b show ?thesis by (rule conjI)
qed

text \<open>
  An exact elapsed time below the window does not suffice. With quota 1 and window 10,
  the calls at the clock values \<open>tiny\<close> and 10 are less than 10 seconds apart, but the
  difference the code computes is the double 10: the second call drops the first entry
  and is admitted.
\<close>

theorem quota_then_deny_rounding_counterexample:
  "init 1 10 = Inr quota1 \<and>
   10 - tiny < (10 :: real) \<and>
   fst (check_many quota1 ''u1'' [tiny, 10]) = [Inr (True, 0), Inr (True, 0)]"
  using tiny_bounds by (simp add: init_def quota1_def evaluate)

section \<open>Reset\<close>

text \<open>
  C8. \<open>reset\<close> is total: it returns a limiter for every argument. For a string
  identifier the result is the limiter with the identifier's key removed from the map,
  which is the limiter itself when the key was absent; \<open>None\<close> changes nothing. On a
  limiter with a positive quota \<open>N\<close>, \<open>N\<close> consecutive calls of \<open>check_rate_limit\<close>
  for a non-empty identifier right after its reset all return \<open>(True, 0)\<close>, whatever the
  log held before and whatever the clock values of the calls.
\<close>

theorem reset_forgets:
  "reset l (Some i) = l\<lparr>requests := (requests l)(i := None)\<rparr> \<and>
   requests (reset l (Some i)) i = None \<and>
   (requests l i = None \<longrightarrow> reset l (Some i) = l) \<and>
   reset l None = l \<and>
   (i \<noteq> [] \<and> 0 < max_requests l \<and> length ts = nat (max_requests l) \<longrightarrow>
      fst (check_many (reset l (Some i)) i ts) =
        replicate (nat (max_requests l)) (Inr (True, 0)))"
proof -
  have a: "reset l (Some i) = l\<lparr>requests := (requests l)(i := None)\<rparr>"
  proof (cases "requests l i")
    case None
    then have "(requests l)(i := None) = requests l" by (simp add: fun_upd_idem)
    then show ?thesis using None by (simp add: reset_def)
  next
    case (Some q)
    then show ?thesis by (simp add: reset_def)
  qed
  have b: "requests (reset l (Some i)) i = None"
    by (simp add: a)
  have c: "requests l i = None \<longrightarrow> reset l (Some i) = l"
    by (simp add: reset_def)
  have d: "reset l None = l"
    by (simp add: reset_def)
  have e: "fst (check_many (reset l (Some i)) i ts) =
      replicate (nat (max_requests l)) (Inr (True, 0))"
    if "i \<noteq> []" "0 < max_requests l" "length ts = nat (max_requests l)"
  proof -
    have empty: "log_of (reset l (Some i)) i = []"
      using b by (simp add: log_of_def)
    have "fst (check_many (reset l (Some i)) i ts) = replicate (length ts) (Inr (True, 0))"
      using that empty by (intro check_many_room) simp_all
    then show ?thesis using that(3) by simp
  qed
  from a b c d e show ?thesis by blast
qed

theorem reset_forgets_witness:
  "reset u1_full (Some ''u1'') = u1_full\<lparr>requests := (requests u1_full)(''u1'' := None)\<rparr> \<and>
   requests (reset u1_full (Some ''u1'')) ''u1'' = None \<and>
   reset u1_full (Some ''u2'') = u1_full \<and>
   reset u1_full None = u1_full \<and>
   fst (check_many (reset u1_full (Some ''u1'')) ''u1'' [3, 4, 5]) =
     [Inr (True, 0), Inr (True, 0), Inr (True, 0)]"
proof -
  note known = reset_forgets [of u1_full "''u1''" "[3, 4, 5]"]
  note unknown = reset_forgets [of u1_full "''u2''" "[]"]
  have hyp: "''u1'' \<noteq> [] \<and> 0 < max_requests u1_full \<and>
      length [3, 4, 5 :: real] = nat (max_requests u1_full)"
    by (simp add: u1_full_def)
  have absent: "requests u1_full ''u2'' = None"
    by (simp add: u1_full_def)
  have three: "replicate (nat (max_requests u1_full)) (Inr (True, 0) :: outcome) =
      [Inr (True, 0), Inr (True, 0), Inr (True, 0)]"
    by (simp add: u1_full_def numeral_3_eq_3)
  have "fst (check_many (reset u1_full (Some ''u1'')) ''u1'' [3, 4, 5]) =
      replicate (nat (max_requests u1_full)) (Inr (True, 0))"
    using known hyp by blast
  then have admitted: "fst (check_many (reset u1_full (Some ''u1'')) ''u1'' [3, 4, 5]) =
      [Inr (True, 0), Inr (True, 0), Inr (True, 0)]"
    by (simp only: three)
  have same: "reset u1_full (Some ''u2'') = u1_full"
    using unknown absent by blast
  from known same admitted show ?thesis by blast
qed

section \<open>More callers than the quota\<close>

text \<open>
  C10, as amended. The calls of concurrent callers take the lock one after the other,
  in any order, each with the clock value it read before: a list \<open>ts\<close> of clock values
  in the order of the lock. Let the identifier be non-empty, the quota \<open>N\<close> at least 1,
  the log without unexpired entries when the first call is made, and the number of
  calls \<open>C\<close> greater than \<open>N\<close>. When all calls are in one window as the code measures
  it (the double-precision difference between each clock value and that of the first
  call is below the window; window and differences within \<open>clock_bound\<close>), the first
  \<open>N\<close> calls return \<open>(True, 0)\<close> and the other \<open>C - N\<close> return \<open>False\<close> with a strictly
  positive retry-after value.
\<close>

theorem window_admits_exactly_quota:
  assumes "i \<noteq> []" and "0 < max_requests l" and "nat (max_requests l) < length ts"
    and "\<forall>t0 \<in> set (log_of l i). expired (time_window l) (hd ts) t0"
    and "of_int (time_window l) \<le> clock_bound"
    and "\<forall>t \<in> set ts. fsub t (hd ts) < of_int (time_window l) \<and> - clock_bound \<le> t - hd ts"
  shows "fst (check_many l i ts) =
           replicate (nat (max_requests l)) (Inr (True, 0)) @
           map (\<lambda>t. Inr (False, retry_value (time_window l) t (hd ts)))
             (drop (nat (max_requests l)) ts) \<and>
         length (drop (nat (max_requests l)) ts) = length ts - nat (max_requests l) \<and>
         (\<forall>t \<in> set ts. 0 < retry_value (time_window l) t (hd ts))"
proof -
  have ne: "ts \<noteq> []" using assms(3) by auto
  note w = window_outcomes [OF assms(1,2) ne assms(4,5,6)]
  have "min (nat (max_requests l)) (length ts) = nat (max_requests l)"
    using assms(3) by simp
  with w show ?thesis by simp
qed

theorem window_admits_exactly_quota_witness:
  "fst (check_many u1_fresh ''u1'' [0, 1, 2, 3, 3]) =
     [Inr (True, 0), Inr (True, 0), Inr (True, 0), Inr (False, 8), Inr (False, 8)]"
proof -
  have "fst (check_many u1_fresh ''u1'' [0, 1, 2, 3, 3]) =
      replicate (nat (max_requests u1_fresh)) (Inr (True, 0)) @
      map (\<lambda>t. Inr (False, retry_value (time_window u1_fresh) t (hd [0, 1, 2, 3, 3])))
        (drop (nat (max_requests u1_fresh)) [0, 1, 2, 3, 3]) \<and>
      length (drop (nat (max_requests u1_fresh)) [0, 1, 2, 3, 3 :: real]) =
        length [0, 1, 2, 3, 3 :: real] - nat (max_requests u1_fresh) \<and>
      (\<forall>t \<in> set [0, 1, 2, 3, 3].
         0 < retry_value (time_window u1_fresh) t (hd [0, 1, 2, 3, 3]))"
    by (rule window_admits_exactly_quota)
      (simp_all add: u1_fresh_def log_of_def fsub_def clock_bound_def)
  moreover have "replicate (nat (max_requests u1_fresh)) (Inr (True, 0) :: outcome) =
      [Inr (True, 0), Inr (True, 0), Inr (True, 0)]"
    by (simp add: u1_fresh_def numeral_3_eq_3)
  moreover have "map (\<lambda>t. Inr (False, retry_value (time_window u1_fresh) t (hd [0, 1, 2, 3, 3])))
      (drop (nat (max_requests u1_fresh)) [0, 1, 2, 3, 3]) =
      [Inr (False, 8), Inr (False, 8) :: outcome]"
    by (simp add: u1_fresh_def numeral_3_eq_3 retry_value_def fsub_def py_int_def)
  ultimately show ?thesis by (simp only: append.simps)
qed

text \<open>
  Clock values less than a window apart do not suffice. With quota 2 and window 10,
  three callers read \<open>tiny\<close>, \<open>tiny\<close> and 10, all less than 10 seconds apart. For the
  third the code computes the difference 10, drops both entries and admits it: three
  admissions.
\<close>

theorem window_rounding_counterexample:
  "init 2 10 = Inr quota2 \<and>
   10 - tiny < (10 :: real) \<and>
   fst (check_many quota2 ''u1'' [tiny, tiny, 10]) =
     [Inr (True, 0), Inr (True, 0), Inr (True, 0)]"
  using tiny_bounds by (simp add: init_def quota2_def evaluate)


end
